theory Spec2Isabelle
  imports Complex_Main
begin

section \<open>Data model\<close>

text \<open>The enumerations of \<^verbatim>\<open>models/enums.py\<close>.\<close>

datatype Pitch = HIGH | MID | LOW

datatype NoteName = DO | RE | MI | FA | SOL | LA | TI

datatype Accidental = NATURAL | SHARP | FLAT

datatype PlaybackState = READY | PLAYING | PAUSED | STOPPED

text \<open>The exceptions of Python that the modelled code can raise.\<close>

datatype py_error = KeyError | OverflowError | ValueError | IndexError | ZeroDivisionError

text \<open>
  The dataclasses of \<^verbatim>\<open>models/note.py\<close>. Python's unbounded integers are \<^typ>\<open>int\<close>.
  Times are Python floats: a time is the rational number that the float denotes.
  Comparisons of floats are exact. The accumulation of times in \<^verbatim>\<open>filter_to_window\<close>
  is float addition, modelled below with its rounding (\<open>fadd\<close>); elsewhere the
  arithmetic on times is exact, and no property stated of it depends on rounding.
\<close>

type_synonym seconds = rat

record KeyPress =
  key :: string
  modifiers :: "string list"

record GameNote =
  pitch :: Pitch
  name :: NoteName
  accidental :: Accidental

text \<open>The field \<^verbatim>\<open>note\<close> is named \<open>note_no\<close> here (\<open>note\<close> is reserved).\<close>

record NoteEvent =
  note_no :: int
  velocity :: int
  time_delta :: seconds
  is_note_on :: bool

text \<open>The checks of \<^verbatim>\<open>NoteEvent.__post_init__\<close>, which raises \<^verbatim>\<open>ValueError\<close> otherwise.\<close>

definition post_init_ok :: "NoteEvent \<Rightarrow> bool" where
  "post_init_ok e \<longleftrightarrow>
     (0 \<le> note_no e \<and> note_no e \<le> 127) \<and> (0 \<le> velocity e \<and> velocity e \<le> 127) \<and> \<not> time_delta e < 0"

section \<open>Note converter\<close>

text \<open>The dict \<^verbatim>\<open>SEMITONE_TO_NOTE\<close>; a lookup of a missing key raises \<^verbatim>\<open>KeyError\<close>.\<close>

definition SEMITONE_TO_NOTE :: "int \<rightharpoonup> NoteName \<times> Accidental" where
  "SEMITONE_TO_NOTE = map_of
     [(0, (DO, NATURAL)),
      (1, (DO, SHARP)),
      (2, (RE, NATURAL)),
      (3, (MI, FLAT)),
      (4, (MI, NATURAL)),
      (5, (FA, NATURAL)),
      (6, (FA, SHARP)),
      (7, (SOL, NATURAL)),
      (8, (SOL, SHARP)),
      (9, (LA, NATURAL)),
      (10, (TI, FLAT)),
      (11, (TI, NATURAL))]"

definition GAME_MIN_MIDI :: int where "GAME_MIN_MIDI = 48"
definition GAME_MAX_MIDI :: int where "GAME_MAX_MIDI = 83"
definition GAME_RANGE :: int where "GAME_RANGE = GAME_MAX_MIDI - GAME_MIN_MIDI + 1"

text \<open>A \<^verbatim>\<open>NoteConverter\<close> is its field \<^verbatim>\<open>_base_octave\<close> (4 by default).\<close>

definition min_midi_note :: "int \<Rightarrow> int" where
  "min_midi_note base_octave = base_octave * 12"

definition max_midi_note :: "int \<Rightarrow> int" where
  "max_midi_note base_octave = (base_octave + 3) * 12 - 1"

definition convert :: "int \<Rightarrow> int \<Rightarrow> py_error + GameNote" where
  "convert base_octave midi_note =
     (let clamped_note = max (min_midi_note base_octave) (min midi_note (max_midi_note base_octave));
          octave = clamped_note div 12;
          semitone = clamped_note mod 12;
          octave_offset = octave - base_octave;
          p = (if octave_offset \<le> 0 then LOW
               else if octave_offset = 1 then MID
               else HIGH)
      in case SEMITONE_TO_NOTE semitone of
           None \<Rightarrow> Inl KeyError
         | Some (nm, acc) \<Rightarrow> Inr \<lparr>pitch = p, name = nm, accidental = acc\<rparr>)"

definition is_in_range :: "int \<Rightarrow> int \<Rightarrow> bool" where
  "is_in_range base_octave midi_note \<longleftrightarrow>
     min_midi_note base_octave \<le> midi_note \<and> midi_note \<le> max_midi_note base_octave"

section \<open>Transposer\<close>

text \<open>
  Python's \<^verbatim>\<open>round\<close> on a float: to the nearest integer, a tie going to the even one.
\<close>

definition py_round :: "rat \<Rightarrow> int" where
  "py_round x =
     (let f = \<lfloor>x\<rfloor>; r = x - of_int f
      in if r < 1 / 2 then f
         else if 1 / 2 < r then f + 1
         else if even f then f else f + 1)"







text \<open>A \<^verbatim>\<open>Transposer\<close> and its \<^verbatim>\<open>__init__\<close> (defaults: 48 and 83).\<close>

record Transposer =
  game_min :: int
  game_max :: int
  game_range :: int

definition Transposer_init :: "int \<Rightarrow> int \<Rightarrow> Transposer" where
  "Transposer_init gmin gmax =
     \<lparr>game_min = gmin, game_max = gmax, game_range = gmax - gmin + 1\<rparr>"

definition default_transposer :: Transposer where
  "default_transposer = Transposer_init GAME_MIN_MIDI GAME_MAX_MIDI"

text \<open>
  The two local values \<^verbatim>\<open>raw_offset\<close> and \<^verbatim>\<open>octave_offset\<close> of
  \<^verbatim>\<open>calculate_offset\<close>; the centres are half-integers, exact as floats.
\<close>

definition raw_offset :: "Transposer \<Rightarrow> int \<times> int \<Rightarrow> rat" where
  "raw_offset t note_range =
     (let (song_min, song_max) = note_range;
          song_center = of_int (song_min + song_max) / 2;
          game_center = of_int (game_min t + game_max t) / 2
      in game_center - song_center)"

definition octave_offset :: "Transposer \<Rightarrow> int \<times> int \<Rightarrow> int" where
  "octave_offset t note_range = py_round (raw_offset t note_range / 12) * 12"

definition calculate_offset :: "Transposer \<Rightarrow> int \<times> int \<Rightarrow> int" where
  "calculate_offset t note_range =
     (let (song_min, song_max) = note_range;
          song_range = song_max - song_min + 1
      in if song_min \<ge> game_min t \<and> song_max \<le> game_max t then 0
         else if song_range \<le> game_range t then
           (let shifted_min = song_min + octave_offset t note_range;
                shifted_max = song_max + octave_offset t note_range
            in if shifted_min \<ge> game_min t \<and> shifted_max \<le> game_max t
               then octave_offset t note_range
               else py_round (raw_offset t note_range))
         else py_round (raw_offset t note_range))"


text \<open>
  \<^verbatim>\<open>sum(1 for n in notes if start <= n <= end)\<close> with
  \<^verbatim>\<open>end = start + GAME_RANGE - 1\<close>, the count of one window position.
\<close>

definition window_count :: "int list \<Rightarrow> int \<Rightarrow> int" where
  "window_count notes start =
     (let end = start + GAME_RANGE - 1
      in int (length (filter (\<lambda>n. start \<le> n \<and> n \<le> end) notes)))"

text \<open>The body of the \<^verbatim>\<open>for start in range(...)\<close> loop on the pair of its two variables.\<close>

definition window_step :: "int list \<Rightarrow> int \<Rightarrow> int \<times> int \<Rightarrow> int \<times> int" where
  "window_step notes start best =
     (let (best_start, best_count) = best;
          count = window_count notes start
      in if count > best_count then (start, count) else (best_start, best_count))"

text \<open>
  \<^verbatim>\<open>min(notes)\<close> and \<^verbatim>\<open>max(notes)\<close> are taken of a list known to be non-empty;
  \<^verbatim>\<open>range(min_note, max_note - GAME_RANGE + 2)\<close> is the list
  \<open>[min_note..max_note - GAME_RANGE + 1]\<close>.
\<close>

definition find_best_window :: "Transposer \<Rightarrow> NoteEvent list \<Rightarrow> int \<times> int" where
  "find_best_window t events =
     (let note_on_events = filter is_note_on events
      in case map note_no note_on_events of
           [] \<Rightarrow> (game_min t, 0)
         | n # ns \<Rightarrow>
             (let notes = n # ns;
                  min_note = fold min ns n;
                  max_note = fold max ns n
              in if max_note - min_note < GAME_RANGE then (min_note, int (length notes))
                 else fold (window_step notes) [min_note..max_note - GAME_RANGE + 1]
                        (min_note, 0)))"





section \<open>Key mapping\<close>

text \<open>The values of the enum \<^verbatim>\<open>NoteName\<close>: the scale degree in Jianpu notation.\<close>

fun degree :: "NoteName \<Rightarrow> int" where
  "degree DO = 1"
| "degree RE = 2"
| "degree MI = 3"
| "degree FA = 4"
| "degree SOL = 5"
| "degree LA = 6"
| "degree TI = 7"

text \<open>The lookup tables of \<^verbatim>\<open>models/mapping_table.py\<close>, dicts of dicts.\<close>

definition NATURAL_KEYS :: "Pitch \<rightharpoonup> (NoteName \<rightharpoonup> string)" where
  "NATURAL_KEYS = map_of
     [(HIGH, map_of [(DO, ''q''), (RE, ''w''), (MI, ''e''), (FA, ''r''),
                     (SOL, ''t''), (LA, ''y''), (TI, ''u'')]),
      (MID, map_of [(DO, ''a''), (RE, ''s''), (MI, ''d''), (FA, ''f''),
                    (SOL, ''g''), (LA, ''h''), (TI, ''j'')]),
      (LOW, map_of [(DO, ''z''), (RE, ''x''), (MI, ''c''), (FA, ''v''),
                    (SOL, ''b''), (LA, ''n''), (TI, ''m'')])]"

definition SHARP_KEYS :: "Pitch \<rightharpoonup> (NoteName \<rightharpoonup> string)" where
  "SHARP_KEYS = map_of
     [(HIGH, map_of [(DO, ''q''), (FA, ''r''), (SOL, ''t'')]),
      (MID, map_of [(DO, ''a''), (FA, ''f''), (SOL, ''g'')]),
      (LOW, map_of [(DO, ''z''), (FA, ''v''), (SOL, ''b'')])]"

definition FLAT_KEYS :: "Pitch \<rightharpoonup> (NoteName \<rightharpoonup> string)" where
  "FLAT_KEYS = map_of
     [(HIGH, map_of [(MI, ''e''), (TI, ''u'')]),
      (MID, map_of [(MI, ''d''), (TI, ''j'')]),
      (LOW, map_of [(MI, ''c''), (TI, ''m'')])]"

definition SHARPS_SUPPORTED :: "NoteName set" where
  "SHARPS_SUPPORTED = {DO, FA, SOL}"

definition FLATS_SUPPORTED :: "NoteName set" where
  "FLATS_SUPPORTED = {MI, TI}"

text \<open>\<^verbatim>\<open>table[pitch][name]\<close>: either subscript raises \<^verbatim>\<open>KeyError\<close> on a missing key.\<close>

definition subscript2 :: "('a \<rightharpoonup> ('b \<rightharpoonup> 'c)) \<Rightarrow> 'a \<Rightarrow> 'b \<Rightarrow> py_error + 'c" where
  "subscript2 table p n =
     (case table p of
        None \<Rightarrow> Inl KeyError
      | Some row \<Rightarrow> (case row n of None \<Rightarrow> Inl KeyError | Some k \<Rightarrow> Inr k))"

definition get_natural_key :: "Pitch \<Rightarrow> NoteName \<Rightarrow> py_error + KeyPress" where
  "get_natural_key p n =
     (case subscript2 NATURAL_KEYS p n of
        Inl e \<Rightarrow> Inl e
      | Inr k \<Rightarrow> Inr \<lparr>key = k, modifiers = []\<rparr>)"

definition get_sharp_key :: "Pitch \<Rightarrow> NoteName \<Rightarrow> py_error + KeyPress" where
  "get_sharp_key p n =
     (if n \<notin> SHARPS_SUPPORTED then get_natural_key p n
      else case subscript2 SHARP_KEYS p n of
             Inl e \<Rightarrow> Inl e
           | Inr k \<Rightarrow> Inr \<lparr>key = k, modifiers = [''shift'']\<rparr>)"

definition get_flat_key :: "Pitch \<Rightarrow> NoteName \<Rightarrow> py_error + KeyPress" where
  "get_flat_key p n =
     (if n \<notin> FLATS_SUPPORTED then get_natural_key p n
      else case subscript2 FLAT_KEYS p n of
             Inl e \<Rightarrow> Inl e
           | Inr k \<Rightarrow> Inr \<lparr>key = k, modifiers = [''ctrl'']\<rparr>)"

definition get_key_press :: "GameNote \<Rightarrow> py_error + KeyPress" where
  "get_key_press game_note =
     (if accidental game_note = SHARP then get_sharp_key (pitch game_note) (name game_note)
      else if accidental game_note = FLAT then get_flat_key (pitch game_note) (name game_note)
      else get_natural_key (pitch game_note) (name game_note))"


section \<open>Compiled song\<close>

text \<open>
  The dataclass \<^verbatim>\<open>CompiledNote\<close>. Its fields \<^verbatim>\<open>key\<close>, \<^verbatim>\<open>modifiers\<close>,
  \<^verbatim>\<open>time_delta\<close> and \<^verbatim>\<open>velocity\<close> carry the prefix \<open>note_\<close> here, since a
  \<^verbatim>\<open>KeyPress\<close> and a \<^verbatim>\<open>NoteEvent\<close> have fields of the same names.
\<close>

record CompiledNote =
  note_key :: string
  note_modifiers :: "string list"
  note_time_delta :: seconds
  note_velocity :: int
  is_chord_start :: bool
  chord_size :: int

text \<open>
  The class \<^verbatim>\<open>CompiledSong\<close>; \<^verbatim>\<open>notes\<close> is \<open>song_notes\<close>, and the three
  parallel arrays drop their leading underscore.
\<close>

record CompiledSong =
  song_notes :: "CompiledNote list"
  total_notes :: int
  duration :: seconds
  density_map :: "seconds list"
  time_deltas :: "seconds list"
  velocities :: "int list"
  chord_sizes :: "int list"

definition CompiledSong_init :: CompiledSong where
  "CompiledSong_init =
     \<lparr>song_notes = [], total_notes = 0, duration = 0, density_map = [],
      time_deltas = [], velocities = [], chord_sizes = []\<rparr>"

text \<open>
  \<^verbatim>\<open>array.array('B').append(v)\<close>: an unsigned byte, so a value outside \<open>[0,255]\<close>
  raises \<^verbatim>\<open>OverflowError\<close>. Appending a float to an \<^verbatim>\<open>array.array('f')\<close> never
  raises.
\<close>

definition array_B_append :: "int list \<Rightarrow> int \<Rightarrow> py_error + int list" where
  "array_B_append a v = (if 0 \<le> v \<and> v \<le> 255 then Inr (a @ [v]) else Inl OverflowError)"

text \<open>
  The body of the \<^verbatim>\<open>try\<close> in \<^verbatim>\<open>compile\<close> for one member \<^verbatim>\<open>ce\<close> of a chord, at
  position \<^verbatim>\<open>idx\<close>, with \<open>n = len(chord_events)\<close>. It returns the song as the
  statements executed so far have left it, and the exception that ended the block, if
  any; the handler is \<^verbatim>\<open>except Exception: pass\<close>, so the exception matters to the
  caller only as a record of what was caught.
\<close>

definition compile_note ::
  "int \<Rightarrow> int \<Rightarrow> nat \<Rightarrow> NoteEvent \<Rightarrow> int \<Rightarrow> CompiledSong \<Rightarrow> CompiledSong \<times> py_error option"
where
  "compile_note transpose_offset base_octave idx ce n song =
     (let transposed = note_no ce + transpose_offset
      in case convert base_octave transposed of
           Inl err \<Rightarrow> (song, Some err)
         | Inr game_note \<Rightarrow>
        (case get_key_press game_note of
           Inl err \<Rightarrow> (song, Some err)
         | Inr key_press \<Rightarrow>
        (let note_time = (if idx = 0 then time_delta ce else 0);
             compiled = \<lparr>note_key = key key_press,
                         note_modifiers = modifiers key_press,
                         note_time_delta = note_time,
                         note_velocity = velocity ce,
                         is_chord_start = (idx = 0 \<and> n > 1),
                         chord_size = (if idx = 0 then n else 0)\<rparr>;
             song1 = song\<lparr>song_notes := song_notes song @ [compiled]\<rparr>;
             song2 = song1\<lparr>time_deltas := time_deltas song1 @ [note_time]\<rparr>
         in case array_B_append (velocities song2) (min 127 (velocity ce)) of
              Inl err \<Rightarrow> (song2, Some err)
            | Inr vs \<Rightarrow>
           (let song3 = song2\<lparr>velocities := vs\<rparr>
            in case array_B_append (chord_sizes song3) (if idx = 0 then n else 0) of
                 Inl err \<Rightarrow> (song3, Some err)
               | Inr cs \<Rightarrow> (song3\<lparr>chord_sizes := cs\<rparr>, None)))))"

text \<open>
  \<^verbatim>\<open>for idx, ce in enumerate(chord_events)\<close>, from position \<open>idx\<close> on. The state is
  the song and the list of the exceptions caught so far.
\<close>

fun compile_chord ::
  "int \<Rightarrow> int \<Rightarrow> int \<Rightarrow> nat \<Rightarrow> NoteEvent list \<Rightarrow> CompiledSong \<times> py_error list
   \<Rightarrow> CompiledSong \<times> py_error list"
where
  "compile_chord transpose_offset base_octave n idx [] st = st"
| "compile_chord transpose_offset base_octave n idx (ce # ces) st =
     (let (song, caught) = st;
          (song', exc) = compile_note transpose_offset base_octave idx ce n song
      in compile_chord transpose_offset base_octave n (Suc idx) ces
           (song', caught @ (case exc of None \<Rightarrow> [] | Some err \<Rightarrow> [err])))"

text \<open>
  The outer \<^verbatim>\<open>while i < len(events)\<close> loop, on the events from index \<open>i\<close> on. The
  inner loop takes the longest run of following events whose \<^verbatim>\<open>time_delta\<close> is at
  most the threshold (\<open>takeWhile\<close>), and \<open>i = j\<close> continues after that run
  (\<open>dropWhile\<close>). The result is the song, the caught exceptions and \<^verbatim>\<open>total_time\<close>.
\<close>

function compile_loop ::
  "seconds \<Rightarrow> int \<Rightarrow> int \<Rightarrow> NoteEvent list \<Rightarrow> seconds \<Rightarrow> CompiledSong \<times> py_error list
   \<Rightarrow> (CompiledSong \<times> py_error list) \<times> seconds"
where
  "compile_loop chord_threshold transpose_offset base_octave [] total_time st = (st, total_time)"
| "compile_loop chord_threshold transpose_offset base_octave (event # rest) total_time st =
     (let chord_events = event # takeWhile (\<lambda>e. time_delta e \<le> chord_threshold) rest
      in compile_loop chord_threshold transpose_offset base_octave
           (dropWhile (\<lambda>e. time_delta e \<le> chord_threshold) rest)
           (total_time + time_delta event)
           (compile_chord transpose_offset base_octave (int (length chord_events)) 0
              chord_events st))"
  by pat_completeness auto
termination
  by (relation "measure (\<lambda>(thr, off, base, events, total, st). length events)")
    (auto simp: length_dropWhile_le le_imp_less_Suc)

text \<open>\<^verbatim>\<open>_calculate_density\<close>: the cumulative times, then one density per time.\<close>

fun cumulative_times :: "seconds \<Rightarrow> CompiledNote list \<Rightarrow> seconds list" where
  "cumulative_times cumulative [] = []"
| "cumulative_times cumulative (n # ns) =
     (cumulative + note_time_delta n) # cumulative_times (cumulative + note_time_delta n) ns"

definition calculate_density :: "seconds \<Rightarrow> CompiledSong \<Rightarrow> CompiledSong" where
  "calculate_density window song =
     (if song_notes song = [] then song
      else
        (let times = cumulative_times 0 (song_notes song);
             half_window = window / 2;
             density = (\<lambda>t. let start_t = t - half_window;
                                 end_t = t + half_window;
                                 count = length (filter (\<lambda>tt. start_t \<le> tt \<and> tt \<le> end_t) times)
                             in of_nat count / window)
         in song\<lparr>density_map := density_map song @ map density times\<rparr>))"

text \<open>
  \<^verbatim>\<open>CompiledSong.compile\<close>; the converter is its base octave, the key mapper has no
  state. \<open>compile_run\<close> also returns the exceptions that the handler swallowed.
\<close>

definition compile_run ::
  "NoteEvent list \<Rightarrow> int \<Rightarrow> int \<Rightarrow> seconds \<Rightarrow> CompiledSong \<times> py_error list" where
  "compile_run events transpose_offset base_octave chord_threshold =
     (if events = [] then (CompiledSong_init, [])
      else
        (let ((song, caught), total_time) =
               compile_loop chord_threshold transpose_offset base_octave events 0
                 (CompiledSong_init, []);
             song1 = song\<lparr>total_notes := int (length (song_notes song))\<rparr>;
             song2 = song1\<lparr>duration := total_time\<rparr>
         in (calculate_density 2 song2, caught)))"

definition compile :: "NoteEvent list \<Rightarrow> int \<Rightarrow> int \<Rightarrow> seconds \<Rightarrow> CompiledSong" where
  "compile events transpose_offset base_octave chord_threshold =
     fst (compile_run events transpose_offset base_octave chord_threshold)"

definition compile_caught :: "NoteEvent list \<Rightarrow> int \<Rightarrow> int \<Rightarrow> seconds \<Rightarrow> py_error list" where
  "compile_caught events transpose_offset base_octave chord_threshold =
     snd (compile_run events transpose_offset base_octave chord_threshold)"


section \<open>Keyboard service\<close>

text \<open>
  The part of \<^verbatim>\<open>KeyboardService\<close> that \<^verbatim>\<open>release_all\<close> uses. The keyboard library
  is the list \<open>released\<close> of the keys it was asked to release; its calls are taken not
  to raise (\<^verbatim>\<open>release_all\<close> catches what they raise). \<^verbatim>\<open>str.lower\<close> is modelled on
  ASCII letters.
\<close>

record KeyboardService =
  initialized :: bool
  held_modifiers :: "string list"
  released :: "string list"

definition char_lower :: "char \<Rightarrow> char" where
  "char_lower c =
     (let n = (of_char c :: nat) in if 65 \<le> n \<and> n \<le> 90 then char_of (n + 32) else c)"

definition get_modifier_key :: "string \<Rightarrow> string" where
  "get_modifier_key modifier =
     (let l = map char_lower modifier
      in if l = ''shift'' \<or> l = ''ctrl'' \<or> l = ''alt'' then l else modifier)"

definition release_modifier :: "string \<Rightarrow> KeyboardService \<Rightarrow> KeyboardService" where
  "release_modifier modifier ks =
     (let mod_key = get_modifier_key modifier
      in if mod_key \<noteq> []
         then ks\<lparr>released := released ks @ [mod_key],
                 held_modifiers := removeAll modifier (held_modifiers ks)\<rparr>
         else ks)"

definition release_all :: "KeyboardService \<Rightarrow> KeyboardService" where
  "release_all ks =
     (if \<not> initialized ks then ks
      else
        (let ks1 = fold release_modifier (held_modifiers ks) ks;
             ks2 = ks1\<lparr>held_modifiers := []\<rparr>;
             ks3 = ks2\<lparr>released := released ks2 @ [''shift'', ''ctrl'', ''alt'']\<rparr>
         in ks3\<lparr>released := released ks3 @ map (\<lambda>c. [c]) ''qwertyuasdfghjzxcvbnm''\<rparr>))"

section \<open>Playback controller\<close>

text \<open>The fields of \<^verbatim>\<open>AppConfig\<close> that playback reads.\<close>

record AppConfig =
  input_delay_ms :: int
  min_note_delay_ms :: int
  playback_speed :: seconds
  auto_optimize :: bool
  loop_mode :: bool
  countdown_seconds :: int
  humanize_ms :: int
  chord_strum_ms :: int
  velocity_timing :: bool
  dynamic_tempo :: bool
  high_performance :: bool

text \<open>
  What a method of \<^verbatim>\<open>AutoBardApp\<close> does to the outside, in the order in which it does
  it: calls of the keyboard service, joining and starting the playback thread, the
  notifications of the observers (state, progress, countdown), and the waits of the
  precision timer.
\<close>

datatype effect =
    SinkReleaseAll
  | SinkPress KeyPress int
  | SinkPressMultiple "KeyPress list" int int
  | ThreadJoin
  | ThreadStart
  | StateChange PlaybackState
  | Progress int int
  | Countdown int
  | TimerWait seconds
  | TimerReset

text \<open>
  The fields of \<^verbatim>\<open>AutoBardApp\<close>, without their leading underscore;
  \<open>thread_alive\<close> is \<^verbatim>\<open>self._playback_thread and self._playback_thread.is_alive()\<close>.
  An entry of the playlist is a file; here it is what the parser returns for that file,
  \<open>None\<close> when the parser raises.
  Each function below is the sequence of statements of one method, run by the thread that
  calls it; what the playback thread does is the iteration functions further down.
\<close>

record App =
  config :: AppConfig
  keyboard_service :: KeyboardService
  compiled_song :: "CompiledSong option"
  events :: "NoteEvent list"
  transpose_offset :: int
  state :: PlaybackState
  thread_alive :: bool
  stop_flag :: bool
  pause_flag :: bool
  current_position :: int
  start_position :: int
  ab_loop_start :: "int option"
  ab_loop_end :: "int option"
  playlist :: "NoteEvent list option list"
  playlist_index :: int
  effects :: "effect list"

definition set_state :: "PlaybackState \<Rightarrow> App \<Rightarrow> App" where
  "set_state s app = app\<lparr>state := s, effects := effects app @ [StateChange s]\<rparr>"


definition stop :: "App \<Rightarrow> App" where
  "stop app =
     (let a1 = app\<lparr>stop_flag := True\<rparr>;
          a2 = a1\<lparr>pause_flag := False\<rparr>;
          a3 = a2\<lparr>keyboard_service := release_all (keyboard_service a2),
                  effects := effects a2 @ [SinkReleaseAll]\<rparr>;
          a4 = (if thread_alive a3 then a3\<lparr>effects := effects a3 @ [ThreadJoin]\<rparr> else a3);
          a5 = a4\<lparr>current_position := 0\<rparr>;
          a6 = a5\<lparr>start_position := 0\<rparr>
      in set_state STOPPED a6)"

definition start :: "App \<Rightarrow> App" where
  "start app =
     (if events app = [] \<and> compiled_song app = None then app
      else if state app = PLAYING then app
      else if state app = PAUSED then set_state PLAYING (app\<lparr>pause_flag := False\<rparr>)
      else
        (let a1 = (if thread_alive app
                   then app\<lparr>stop_flag := True, effects := effects app @ [ThreadJoin]\<rparr>
                   else app);
             a2 = a1\<lparr>stop_flag := False\<rparr>;
             a3 = a2\<lparr>pause_flag := False\<rparr>
         in a3\<lparr>thread_alive := True, effects := effects a3 @ [ThreadStart]\<rparr>))"

text \<open>
  The playback thread, \<^verbatim>\<open>_play_with_countdown\<close>. First the statements before its
  \<^verbatim>\<open>while\<close> loop: \<^verbatim>\<open>for i in range(countdown_seconds, 0, -1)\<close> tests the stop flag
  before each notification and returns when it is set (the sleep of one second after the
  notification has no effect of its own here); then the state becomes \<open>PLAYING\<close>.
\<close>

fun countdown_loop :: "nat \<Rightarrow> App \<Rightarrow> App option" where
  "countdown_loop 0 app = Some app"
| "countdown_loop (Suc n) app =
     (if stop_flag app then None
      else countdown_loop n (app\<lparr>effects := effects app @ [Countdown (int (Suc n))]\<rparr>))"

definition play_with_countdown_begin :: "App \<Rightarrow> App option" where
  "play_with_countdown_begin app =
     (case (if countdown_seconds (config app) > 0 \<and> start_position app = 0
            then (case countdown_loop (nat (countdown_seconds (config app)))
                         (set_state PLAYING app) of
                    None \<Rightarrow> None
                  | Some a \<Rightarrow> Some (a\<lparr>effects := effects a @ [Countdown 0]\<rparr>))
            else Some app) of
        None \<Rightarrow> None
      | Some a \<Rightarrow> Some (set_state PLAYING a))"






















text \<open>
  The defaults of \<^verbatim>\<open>AppConfig\<close>, and the controller as \<^verbatim>\<open>__init__\<close> and a
  successful load leave it: state \<open>READY\<close>, the events and their compiled song in place.
\<close>

definition AppConfig_init :: AppConfig where
  "AppConfig_init =
     \<lparr>input_delay_ms = 50, min_note_delay_ms = 80, playback_speed = 1,
      auto_optimize = True, loop_mode = False,
      countdown_seconds = 3, humanize_ms = 12, chord_strum_ms = 6, velocity_timing = True,
      dynamic_tempo = True, high_performance = True\<rparr>"

definition App_loaded :: "AppConfig \<Rightarrow> NoteEvent list \<Rightarrow> int \<Rightarrow> App" where
  "App_loaded cfg evs off =
     \<lparr>config = cfg,
      keyboard_service = \<lparr>initialized = False, held_modifiers = [], released = []\<rparr>,
      compiled_song = Some (compile evs off 4 (1 / 20)),
      events = evs, transpose_offset = off, state = READY, thread_alive = False,
      stop_flag = False, pause_flag = False, current_position = 0, start_position = 0,
      ab_loop_start = None, ab_loop_end = None, playlist = [], playlist_index = 0,
      effects = []\<rparr>"


text \<open>
  Sessions used to run the controller on a concrete song: \<open>start\<close> followed by the
  beginning of the playback thread; and, from a playing controller, a session in which
  the loop makes one pass, \<open>pause\<close> is called, the loop makes one pass (it polls),
  \<open>start\<close> is called, and the loop makes one more pass, whose result is returned.
\<close>

definition session_begin :: "App \<Rightarrow> App" where
  "session_begin app =
     (case play_with_countdown_begin (start app) of None \<Rightarrow> start app | Some a \<Rightarrow> a)"



definition demo_events :: "NoteEvent list" where
  "demo_events =
     [\<lparr>note_no = 60, velocity = 100, time_delta = 0, is_note_on = True\<rparr>,
      \<lparr>note_no = 62, velocity = 100, time_delta = 1 / 2, is_note_on = True\<rparr>,
      \<lparr>note_no = 64, velocity = 100, time_delta = 1 / 2, is_note_on = True\<rparr>]"


definition demo_playing :: App where
  "demo_playing = session_begin (App_loaded AppConfig_init demo_events 0)"





text \<open>
  Two notions used only to state and prove properties of \<open>compile\<close>: the chord size and
  time delta of a compiled note, and, for the events after the first one of a list, what
  each of them is expected to compile to: nothing of its own when its delta is within the
  threshold, the length of the run it starts otherwise.
\<close>

definition timing :: "CompiledNote \<Rightarrow> int \<times> seconds" where
  "timing c = (chord_size c, note_time_delta c)"

fun follow :: "seconds \<Rightarrow> NoteEvent list \<Rightarrow> (int \<times> seconds) list" where
  "follow thr [] = []"
| "follow thr (x # xs) =
     (if time_delta x \<le> thr then (0, 0)
      else (1 + int (length (takeWhile (\<lambda>e. time_delta e \<le> thr) xs)), time_delta x))
     # follow thr xs"


section \<open>Properties of the note converter\<close>

lemma SEMITONE_TO_NOTE_total:
  assumes "0 \<le> s" and "s < 12"
  shows "SEMITONE_TO_NOTE s = Some
     ([(DO, NATURAL), (DO, SHARP), (RE, NATURAL), (MI, FLAT), (MI, NATURAL), (FA, NATURAL),
       (FA, SHARP), (SOL, NATURAL), (SOL, SHARP), (LA, NATURAL), (TI, FLAT), (TI, NATURAL)]
      ! nat s)"
proof -
  from assms have "s \<in> {0, 1, 2, 3, 4, 5, 6, 7, 8, 9, 10, 11}" by (simp; arith)
  then show ?thesis
    unfolding SEMITONE_TO_NOTE_def by (elim insertE) simp_all
qed

lemma convert_defined: "\<exists>g. convert b n = Inr g"
proof -
  let ?c = "max (min_midi_note b) (min n (max_midi_note b))"
  have "0 \<le> ?c mod 12" "?c mod 12 < 12" by simp_all
  from SEMITONE_TO_NOTE_total [OF this] show ?thesis
    by (simp add: convert_def Let_def split: prod.splits)
qed

text \<open>
  C1. For every pitch \<open>p\<close> in \<open>[0,127]\<close>, \<open>convert\<close> (base octave 4) clamps \<open>p\<close> into
  \<open>[48,83]\<close>; the band is LOW, MID or HIGH as the clamped octave minus 4 is at most 0,
  equal to 1, or more; degree and accidental are the entry of the fixed 12-entry
  semitone table at the clamped pitch modulo 12; and converting the clamped pitch gives
  the same notation as converting \<open>p\<close>.
\<close>

theorem convert_table_idempotent:
  assumes "0 \<le> p" and "p \<le> 127"
  defines "c \<equiv> max 48 (min p 83)"
  defines "entry \<equiv>
     [(DO, NATURAL), (DO, SHARP), (RE, NATURAL), (MI, FLAT), (MI, NATURAL), (FA, NATURAL),
      (FA, SHARP), (SOL, NATURAL), (SOL, SHARP), (LA, NATURAL), (TI, FLAT), (TI, NATURAL)]
     ! nat (c mod 12)"
  shows "48 \<le> c \<and> c \<le> 83 \<and>
     convert 4 p = Inr \<lparr>pitch = (if c div 12 - 4 \<le> 0 then LOW
                                else if c div 12 - 4 = 1 then MID else HIGH),
                        name = fst entry, accidental = snd entry\<rparr> \<and>
     convert 4 c = convert 4 p"
proof -
  have bounds: "48 \<le> c" "c \<le> 83" by (simp_all add: c_def)
  have clamp: "max (min_midi_note 4) (min p (max_midi_note 4)) = c"
    by (simp add: c_def min_midi_note_def max_midi_note_def)
  have clamp_c: "max (min_midi_note 4) (min c (max_midi_note 4)) = c"
    using bounds by (simp add: min_midi_note_def max_midi_note_def)
  have "0 \<le> c mod 12" "c mod 12 < 12" by simp_all
  from SEMITONE_TO_NOTE_total [OF this]
  have look: "SEMITONE_TO_NOTE (c mod 12) = Some entry" by (simp add: entry_def)
  have "convert 4 p = Inr \<lparr>pitch = (if c div 12 - 4 \<le> 0 then LOW
                                else if c div 12 - 4 = 1 then MID else HIGH),
                        name = fst entry, accidental = snd entry\<rparr>"
    unfolding convert_def clamp by (simp add: Let_def look split: prod.splits)
  moreover have "convert 4 c = convert 4 p"
    unfolding convert_def clamp clamp_c ..
  ultimately show ?thesis using bounds by simp
qed

theorem convert_table_idempotent_witness:
  "(0::int) \<le> 61 \<and> (61::int) \<le> 127 \<and>
   convert 4 61 = Inr \<lparr>pitch = MID, name = DO, accidental = SHARP\<rparr> \<and>
   convert 4 (max 48 (min 61 83)) = convert 4 61"
  using convert_table_idempotent [of 61] by simp

section \<open>Properties of the transposer\<close>

lemma py_round_close: "\<bar>of_int (py_round x) - x\<bar> \<le> 1 / 2"
proof -
  have "of_int \<lfloor>x\<rfloor> \<le> x" "x < of_int \<lfloor>x\<rfloor> + 1" by linarith+
  then show ?thesis
    by (auto simp: py_round_def Let_def)
qed

lemma semitone_shift_fits:
  assumes "song_max - song_min + 1 \<le> 36"
  defines "off \<equiv> py_round (raw_offset default_transposer (song_min, song_max))"
  shows "48 \<le> song_min + off \<and> song_max + off \<le> 83"
proof -
  let ?raw = "raw_offset default_transposer (song_min, song_max)"
  have raw: "?raw = 131 / 2 - of_int (song_min + song_max) / 2"
    by (simp add: raw_offset_def default_transposer_def Transposer_init_def
        GAME_MIN_MIDI_def GAME_MAX_MIDI_def)
  from py_round_close [of ?raw]
  have "?raw - 1 / 2 \<le> of_int off" "of_int off \<le> ?raw + 1 / 2"
    unfolding off_def by linarith+
  then have lo: "(of_int (2 * off) :: rat) \<ge> of_int (130 - (song_min + song_max))"
    and hi: "(of_int (2 * off) :: rat) \<le> of_int (132 - (song_min + song_max))"
    by (simp_all add: raw field_simps)
  from lo have "130 - (song_min + song_max) \<le> 2 * off" by (simp only: of_int_le_iff)
  moreover from hi have "2 * off \<le> 132 - (song_min + song_max)" by (simp only: of_int_le_iff)
  ultimately show ?thesis using assms(1) by arith
qed

lemma calculate_offset_fits:
  assumes "song_max - song_min + 1 \<le> 36"
  defines "off \<equiv> calculate_offset default_transposer (song_min, song_max)"
  shows "48 \<le> song_min + off \<and> song_max + off \<le> 83"
  using semitone_shift_fits [OF assms(1)]
  by (auto simp: off_def calculate_offset_def Let_def default_transposer_def
      Transposer_init_def GAME_MIN_MIDI_def GAME_MAX_MIDI_def)

lemma calculate_offset_36_71: "calculate_offset default_transposer (36, 71) = 12"
  by (simp add: calculate_offset_def octave_offset_def raw_offset_def py_round_def Let_def
      default_transposer_def Transposer_init_def GAME_MIN_MIDI_def GAME_MAX_MIDI_def)

lemma py_round_nearest:
  assumes "\<bar>x - of_int k\<bar> < 1 / 2 \<or> \<bar>x - of_int k\<bar> = 1 / 2 \<and> even k"
  shows "py_round x = k"
proof -
  consider (up) "of_int k \<le> x" "x \<le> of_int k + 1 / 2"
    | (down) "of_int k - 1 / 2 \<le> x" "x < of_int k"
    using assms by (auto simp: abs_if split: if_splits)
  then show ?thesis
  proof cases
    case up
    then have f: "\<lfloor>x\<rfloor> = k" by (intro floor_unique) simp_all
    from up assms have "x - of_int k < 1 / 2 \<or> x - of_int k = 1 / 2 \<and> even k"
      by (auto simp: abs_if split: if_splits)
    then show ?thesis by (auto simp: py_round_def Let_def f)
  next
    case down
    then have f: "\<lfloor>x\<rfloor> = k - 1" by (intro floor_unique) simp_all
    from down assms have "1 / 2 < x - of_int k + 1 \<or> x - of_int k + 1 = 1 / 2 \<and> even k"
      by (auto simp: abs_if split: if_splits)
    then show ?thesis by (auto simp: py_round_def Let_def f)
  qed
qed

lemma octave_offset_nearest:
  assumes "\<bar>24 * k - (131 - (song_min + song_max))\<bar> < 12 \<or>
     \<bar>24 * k - (131 - (song_min + song_max))\<bar> = 12 \<and> even k"
  shows "octave_offset default_transposer (song_min, song_max) = 12 * k"
proof -
  define r where "r = 131 - (song_min + song_max)"
  have raw: "raw_offset default_transposer (song_min, song_max) / 12 = of_int r / 24"
    by (simp add: raw_offset_def default_transposer_def Transposer_init_def
        GAME_MIN_MIDI_def GAME_MAX_MIDI_def r_def field_simps)
  have e: "(of_int r / 24 :: rat) - of_int k = of_int (r - 24 * k) / 24" by simp
  have "\<bar>(of_int (r - 24 * k) / 24 :: rat)\<bar> = \<bar>of_int (r - 24 * k)\<bar> / 24"
    by (simp only: abs_divide abs_numeral)
  also have "\<dots> = of_int \<bar>r - 24 * k\<bar> / 24" by (simp only: of_int_abs)
  finally have "\<bar>(of_int r / 24 :: rat) - of_int k\<bar> = of_int \<bar>r - 24 * k\<bar> / 24"
    unfolding e .
  also have "\<bar>r - 24 * k\<bar> = \<bar>24 * k - r\<bar>" by simp
  finally have dist: "\<bar>(of_int r / 24 :: rat) - of_int k\<bar> = of_int \<bar>24 * k - r\<bar> / 24" .
  have lt: "(of_int \<bar>24 * k - r\<bar> / 24 :: rat) < 1 / 2 \<longleftrightarrow> \<bar>24 * k - r\<bar> < 12"
  proof -
    have "(of_int \<bar>24 * k - r\<bar> / 24 :: rat) < 1 / 2 \<longleftrightarrow>
        (of_int \<bar>24 * k - r\<bar> :: rat) < of_int 12" by simp
    also have "\<dots> \<longleftrightarrow> \<bar>24 * k - r\<bar> < 12" by (simp only: of_int_less_iff)
    finally show ?thesis .
  qed
  have eq: "(of_int \<bar>24 * k - r\<bar> / 24 :: rat) = 1 / 2 \<longleftrightarrow> \<bar>24 * k - r\<bar> = 12"
  proof -
    have "(of_int \<bar>24 * k - r\<bar> / 24 :: rat) = 1 / 2 \<longleftrightarrow>
        (of_int \<bar>24 * k - r\<bar> :: rat) = of_int 12" by simp
    also have "\<dots> \<longleftrightarrow> \<bar>24 * k - r\<bar> = 12" by (simp only: of_int_eq_iff)
    finally show ?thesis .
  qed
  from assms have "\<bar>24 * k - r\<bar> < 12 \<or> \<bar>24 * k - r\<bar> = 12 \<and> even k"
    by (simp only: r_def)
  then have "\<bar>(of_int r / 24 :: rat) - of_int k\<bar> < 1 / 2 \<or>
      \<bar>(of_int r / 24 :: rat) - of_int k\<bar> = 1 / 2 \<and> even k"
    by (simp only: dist lt eq)
  from py_round_nearest [OF this] show ?thesis
    by (simp add: octave_offset_def raw)
qed

text \<open>
  C2. For every range whose span \<open>song_max - song_min + 1\<close> is at most 36: a range already
  inside \<open>[48,83]\<close> gets offset 0; in every case the range shifted by the returned offset
  lies inside \<open>[48,83]\<close>; when the range is not yet inside and the octave-rounded centring
  shift fits, that shift, a multiple of 12, is returned, where the octave-rounded
  centring shift is the multiple \<open>12 * k\<close> of 12 nearest to the centring offset
  \<open>(131 - (song_min + song_max)) / 2\<close>, of two equally near ones the one with even \<open>k\<close>;
  \<open>calculate_offset (36,71) = 12\<close>; and every pitch of the range, shifted by the offset,
  is left unchanged by the clamp of the converter, so clamping can only change a pitch
  when the span exceeded 36.
\<close>

theorem calculate_offset_span_fits:
  assumes "song_max - song_min + 1 \<le> 36"
  defines "off \<equiv> calculate_offset default_transposer (song_min, song_max)"
  defines "oct \<equiv> octave_offset default_transposer (song_min, song_max)"
  shows "(48 \<le> song_min \<and> song_max \<le> 83 \<longrightarrow> off = 0) \<and>
     (48 \<le> song_min + off \<and> song_max + off \<le> 83) \<and>
     (\<not> (48 \<le> song_min \<and> song_max \<le> 83) \<and> 48 \<le> song_min + oct \<and> song_max + oct \<le> 83
        \<longrightarrow> off = oct \<and> off mod 12 = 0) \<and>
     (\<forall>k. (\<bar>24 * k - (131 - (song_min + song_max))\<bar> < 12 \<or>
           \<bar>24 * k - (131 - (song_min + song_max))\<bar> = 12 \<and> even k) \<and>
          \<not> (48 \<le> song_min \<and> song_max \<le> 83) \<and>
          48 \<le> song_min + 12 * k \<and> song_max + 12 * k \<le> 83
        \<longrightarrow> off = 12 * k) \<and>
     calculate_offset default_transposer (36, 71) = 12 \<and>
     (\<forall>p. song_min \<le> p \<and> p \<le> song_max \<longrightarrow>
        is_in_range 4 (p + off) \<and>
        max (min_midi_note 4) (min (p + off) (max_midi_note 4)) = p + off)"
proof -
  have inside: "48 \<le> song_min \<and> song_max \<le> 83 \<longrightarrow> off = 0"
    by (simp add: off_def calculate_offset_def default_transposer_def Transposer_init_def
        GAME_MIN_MIDI_def GAME_MAX_MIDI_def)
  have fits: "48 \<le> song_min + off \<and> song_max + off \<le> 83"
    unfolding off_def using calculate_offset_fits [OF assms(1)] .
  have octave: "\<not> (48 \<le> song_min \<and> song_max \<le> 83) \<and> 48 \<le> song_min + oct \<and> song_max + oct \<le> 83
        \<longrightarrow> off = oct \<and> off mod 12 = 0"
  proof
    assume a: "\<not> (48 \<le> song_min \<and> song_max \<le> 83) \<and> 48 \<le> song_min + oct \<and> song_max + oct \<le> 83"
    with assms(1) have "off = oct"
      unfolding off_def oct_def calculate_offset_def
      by (auto simp: Let_def default_transposer_def Transposer_init_def
          GAME_MIN_MIDI_def GAME_MAX_MIDI_def)
    moreover have "oct mod 12 = 0" by (simp add: oct_def octave_offset_def)
    ultimately show "off = oct \<and> off mod 12 = 0" by simp
  qed
  have nearest: "\<forall>k. (\<bar>24 * k - (131 - (song_min + song_max))\<bar> < 12 \<or>
           \<bar>24 * k - (131 - (song_min + song_max))\<bar> = 12 \<and> even k) \<and>
          \<not> (48 \<le> song_min \<and> song_max \<le> 83) \<and>
          48 \<le> song_min + 12 * k \<and> song_max + 12 * k \<le> 83
        \<longrightarrow> off = 12 * k"
  proof (intro allI impI)
    fix k
    assume a: "(\<bar>24 * k - (131 - (song_min + song_max))\<bar> < 12 \<or>
           \<bar>24 * k - (131 - (song_min + song_max))\<bar> = 12 \<and> even k) \<and>
          \<not> (48 \<le> song_min \<and> song_max \<le> 83) \<and>
          48 \<le> song_min + 12 * k \<and> song_max + 12 * k \<le> 83"
    then have "oct = 12 * k" unfolding oct_def by (intro octave_offset_nearest) blast
    with a octave show "off = 12 * k" by simp
  qed
  have clamp: "\<forall>p. song_min \<le> p \<and> p \<le> song_max \<longrightarrow>
        is_in_range 4 (p + off) \<and>
        max (min_midi_note 4) (min (p + off) (max_midi_note 4)) = p + off"
    using fits by (auto simp: is_in_range_def min_midi_note_def max_midi_note_def)
  from inside fits octave nearest calculate_offset_36_71 clamp show ?thesis by blast
qed

theorem calculate_offset_span_fits_witness:
  "(40::int) - 30 + 1 \<le> 36 \<and> \<not> (48 \<le> (30::int) \<and> (40::int) \<le> 83) \<and>
   \<bar>24 * 3 - (131 - ((30::int) + 40))\<bar> < 12 \<and>
   calculate_offset default_transposer (30, 40) = 36 \<and>
   (100::int) - 90 + 1 \<le> 36 \<and> \<not> (48 \<le> (90::int) \<and> (100::int) \<le> 83) \<and>
   \<bar>24 * (- 2) - (131 - ((90::int) + 100))\<bar> < 12 \<and>
   calculate_offset default_transposer (90, 100) = - 24 \<and>
   (60::int) - 50 + 1 \<le> 36 \<and> (48 \<le> (50::int) \<and> (60::int) \<le> 83) \<and>
   calculate_offset default_transposer (50, 60) = 0 \<and>
   is_in_range 4 (35 + calculate_offset default_transposer (30, 40))"
proof -
  note a = calculate_offset_span_fits [of 40 30]
  note b = calculate_offset_span_fits [of 100 90]
  note c = calculate_offset_span_fits [of 60 50]
  from a have "\<forall>k. (\<bar>24 * k - (131 - ((30::int) + 40))\<bar> < 12 \<or>
           \<bar>24 * k - (131 - ((30::int) + 40))\<bar> = 12 \<and> even k) \<and>
          \<not> (48 \<le> (30::int) \<and> (40::int) \<le> 83) \<and>
          48 \<le> 30 + 12 * k \<and> 40 + 12 * k \<le> 83
        \<longrightarrow> calculate_offset default_transposer (30, 40) = 12 * k"
    by simp
  from this [rule_format, of 3] have a': "calculate_offset default_transposer (30, 40) = 36"
    by simp
  from b have "\<forall>k. (\<bar>24 * k - (131 - ((90::int) + 100))\<bar> < 12 \<or>
           \<bar>24 * k - (131 - ((90::int) + 100))\<bar> = 12 \<and> even k) \<and>
          \<not> (48 \<le> (90::int) \<and> (100::int) \<le> 83) \<and>
          48 \<le> 90 + 12 * k \<and> 100 + 12 * k \<le> 83
        \<longrightarrow> calculate_offset default_transposer (90, 100) = 12 * k"
    by simp
  from this [rule_format, of "- 2"] have b': "calculate_offset default_transposer (90, 100) = - 24"
    by simp
  from c have c': "calculate_offset default_transposer (50, 60) = 0" by simp
  show ?thesis
    by (simp add: a' b' c' is_in_range_def min_midi_note_def max_midi_note_def)
qed

lemma fold_min_Min: "fold min ns n = Min (set (n # ns))"
  by (rule Min.set_eq_fold [symmetric])

lemma fold_max_Max: "fold max ns n = Max (set (n # ns))"
  by (rule Max.set_eq_fold [symmetric])

lemma window_step_pair:
  "window_step notes x (b, c) =
     (if window_count notes x > c then (x, window_count notes x) else (b, c))"
  by (simp add: window_step_def)

lemma length_filter_mono:
  "(\<And>x. x \<in> set xs \<Longrightarrow> P x \<Longrightarrow> Q x) \<Longrightarrow> length (filter P xs) \<le> length (filter Q xs)"
  by (induction xs) auto

lemma window_count_below:
  assumes "\<And>n. n \<in> set notes \<Longrightarrow> lo \<le> n" and "s \<le> lo"
  shows "window_count notes s \<le> window_count notes lo"
  unfolding window_count_def Let_def using assms
  by (intro iffD2 [OF of_nat_le_iff] length_filter_mono) fastforce

lemma window_count_above:
  assumes "\<And>n. n \<in> set notes \<Longrightarrow> n \<le> hi" and "hi - GAME_RANGE + 1 \<le> s"
  shows "window_count notes s \<le> window_count notes (hi - GAME_RANGE + 1)"
  unfolding window_count_def Let_def using assms
  by (intro iffD2 [OF of_nat_le_iff] length_filter_mono) fastforce

lemma fold_window_step:
  assumes "fold (window_step notes) xs (b, c) = (b', c')"
  shows "(b' = b \<and> c' = c \<and> (\<forall>s\<in>set xs. window_count notes s \<le> c)) \<or>
     (\<exists>ys zs. xs = ys @ b' # zs \<and> c' = window_count notes b' \<and> c < c' \<and>
        (\<forall>s\<in>set ys. window_count notes s < c') \<and>
        (\<forall>s\<in>set zs. window_count notes s \<le> c'))"
  using assms
proof (induction xs arbitrary: b c)
  case Nil
  then show ?case by simp
next
  case (Cons x xs)
  show ?case
  proof (cases "window_count notes x > c")
    case True
    with Cons.prems have run: "fold (window_step notes) xs (x, window_count notes x) = (b', c')"
      by (simp add: window_step_pair)
    from Cons.IH [OF run] show ?thesis
    proof (elim disjE conjE exE)
      assume "b' = x" "c' = window_count notes x" "\<forall>s\<in>set xs. window_count notes s \<le> window_count notes x"
      with True have "x # xs = [] @ b' # xs \<and> c' = window_count notes b' \<and> c < c' \<and>
        (\<forall>s\<in>set []. window_count notes s < c') \<and> (\<forall>s\<in>set xs. window_count notes s \<le> c')"
        by simp
      then show ?thesis by blast
    next
      fix ys zs
      assume "xs = ys @ b' # zs" "c' = window_count notes b'" "window_count notes x < c'"
        "\<forall>s\<in>set ys. window_count notes s < c'" "\<forall>s\<in>set zs. window_count notes s \<le> c'"
      with True have "x # xs = (x # ys) @ b' # zs \<and> c' = window_count notes b' \<and> c < c' \<and>
        (\<forall>s\<in>set (x # ys). window_count notes s < c') \<and> (\<forall>s\<in>set zs. window_count notes s \<le> c')"
        by simp
      then show ?thesis by blast
    qed
  next
    case False
    with Cons.prems have run: "fold (window_step notes) xs (b, c) = (b', c')"
      by (simp add: window_step_pair)
    from Cons.IH [OF run] show ?thesis
    proof (elim disjE conjE exE)
      assume "b' = b" "c' = c" "\<forall>s\<in>set xs. window_count notes s \<le> c"
      with False show ?thesis by simp
    next
      fix ys zs
      assume "xs = ys @ b' # zs" "c' = window_count notes b'" "c < c'"
        "\<forall>s\<in>set ys. window_count notes s < c'" "\<forall>s\<in>set zs. window_count notes s \<le> c'"
      with False have "x # xs = (x # ys) @ b' # zs \<and> c' = window_count notes b' \<and> c < c' \<and>
        (\<forall>s\<in>set (x # ys). window_count notes s < c') \<and> (\<forall>s\<in>set zs. window_count notes s \<le> c')"
        by simp
      then show ?thesis by blast
    qed
  qed
qed

lemma upto_split_before:
  assumes "[lo..hi] = ys @ b # zs" and "lo \<le> s" and "s < b"
  shows "s \<in> set ys"
proof -
  have srt: "sorted (ys @ b # zs)" using assms(1) sorted_upto [of lo hi] by simp
  have "b \<in> set [lo..hi]" using assms(1) by simp
  then have "b \<le> hi" by simp
  with assms(2,3) have "s \<in> set [lo..hi]" by simp
  then have "s \<in> set ys \<or> s = b \<or> s \<in> set zs" using assms(1) by auto
  moreover have "s \<noteq> b" using assms(3) by simp
  moreover have "s \<notin> set zs"
  proof
    assume "s \<in> set zs"
    with srt have "b \<le> s" by (simp add: sorted_append)
    with assms(3) show False by simp
  qed
  ultimately show ?thesis by blast
qed

lemma sliding_window_best:
  assumes ne: "notes \<noteq> []"
    and lo: "lo = Min (set notes)" and hi: "hi = Max (set notes)"
    and wide: "hi - lo \<ge> GAME_RANGE"
    and run: "fold (window_step notes) [lo..hi - GAME_RANGE + 1] (lo, 0) = (ws, cnt)"
  shows "cnt = window_count notes ws \<and> (\<forall>s. window_count notes s \<le> cnt) \<and>
     lo \<le> ws \<and> ws \<le> hi - GAME_RANGE + 1 \<and>
     (\<forall>s. lo \<le> s \<and> s < ws \<longrightarrow> window_count notes s < cnt)"
proof -
  have lo_le: "\<And>n. n \<in> set notes \<Longrightarrow> lo \<le> n" by (simp add: lo)
  have le_hi: "\<And>n. n \<in> set notes \<Longrightarrow> n \<le> hi" by (simp add: hi)
  have "lo \<in> set notes" using ne Min_in [of "set notes"] by (simp add: lo)
  then have "lo \<in> set (filter (\<lambda>n. lo \<le> n \<and> n \<le> lo + GAME_RANGE - 1) notes)"
    by (simp add: GAME_RANGE_def GAME_MIN_MIDI_def GAME_MAX_MIDI_def)
  then have "0 < length (filter (\<lambda>n. lo \<le> n \<and> n \<le> lo + GAME_RANGE - 1) notes)"
    by (simp only: length_pos_if_in_set)
  then have pos: "0 < window_count notes lo" by (simp add: window_count_def)
  have lo_in: "lo \<in> set [lo..hi - GAME_RANGE + 1]" using wide by simp
  from fold_window_step [OF run] pos lo_in
  obtain ys zs where split: "[lo..hi - GAME_RANGE + 1] = ys @ ws # zs"
    and cnt: "cnt = window_count notes ws"
    and before: "\<forall>s\<in>set ys. window_count notes s < cnt"
    and after: "\<forall>s\<in>set zs. window_count notes s \<le> cnt"
    by fastforce
  have "ws \<in> set [lo..hi - GAME_RANGE + 1]" by (simp add: split)
  then have ws: "lo \<le> ws" "ws \<le> hi - GAME_RANGE + 1" by simp_all
  have scanned: "window_count notes s \<le> cnt" if "s \<in> set [lo..hi - GAME_RANGE + 1]" for s
  proof -
    from that have "s \<in> set ys \<or> s = ws \<or> s \<in> set zs" by (auto simp: split)
    with before after cnt show ?thesis by fastforce
  qed
  have all: "window_count notes s \<le> cnt" for s
  proof -
    consider "s < lo" | "lo \<le> s" "s \<le> hi - GAME_RANGE + 1" | "hi - GAME_RANGE + 1 < s"
      by linarith
    then show ?thesis
    proof cases
      case 1
      then have "window_count notes s \<le> window_count notes lo"
        by (intro window_count_below lo_le) simp_all
      also have "\<dots> \<le> cnt" using lo_in by (rule scanned)
      finally show ?thesis .
    next
      case 2
      then show ?thesis by (intro scanned) simp
    next
      case 3
      then have "window_count notes s \<le> window_count notes (hi - GAME_RANGE + 1)"
        by (intro window_count_above le_hi) simp_all
      also have "\<dots> \<le> cnt" using wide by (intro scanned) simp
      finally show ?thesis .
    qed
  qed
  have first: "window_count notes s < cnt" if "lo \<le> s" "s < ws" for s
    using upto_split_before [OF split that] before by simp
  from cnt all ws first show ?thesis by blast
qed

text \<open>
  C5. When the onset pitches span more than 36 semitones, \<open>find_best_window\<close> returns a
  start and a count such that the count is the number of onsets in the 36-semitone
  window at that start, no window at any start (so none inside the song's span, and no
  octave-aligned one) holds more onsets, and every scanned start below the returned one
  holds strictly fewer, so the lowest best start is returned. When the span fits, the
  result is the lowest onset pitch and the number of onsets; with no onset at all it is
  the instrument's lowest pitch and 0.
\<close>

theorem find_best_window_optimal:
  fixes events :: "NoteEvent list"
  defines "notes \<equiv> map note_no (filter is_note_on events)"
  defines "res \<equiv> find_best_window default_transposer events"
  shows "(notes \<noteq> [] \<and> Max (set notes) - Min (set notes) + 1 > 36 \<longrightarrow>
       snd res = int (length (filter (\<lambda>n. fst res \<le> n \<and> n \<le> fst res + 35) notes)) \<and>
       (\<forall>s. int (length (filter (\<lambda>n. s \<le> n \<and> n \<le> s + 35) notes)) \<le> snd res) \<and>
       Min (set notes) \<le> fst res \<and> fst res + 35 \<le> Max (set notes) \<and>
       (\<forall>s. Min (set notes) \<le> s \<and> s < fst res \<longrightarrow>
          int (length (filter (\<lambda>n. s \<le> n \<and> n \<le> s + 35) notes)) < snd res)) \<and>
     (notes \<noteq> [] \<and> Max (set notes) - Min (set notes) + 1 \<le> 36 \<longrightarrow>
       res = (Min (set notes), int (length notes))) \<and>
     (notes = [] \<longrightarrow> res = (48, 0))"
proof -
  define lo where "lo = Min (set notes)"
  define hi where "hi = Max (set notes)"
  have wc: "window_count notes s = int (length (filter (\<lambda>n. s \<le> n \<and> n \<le> s + 35) notes))" for s
    by (simp add: window_count_def GAME_RANGE_def GAME_MIN_MIDI_def GAME_MAX_MIDI_def add.commute)
  have gr: "GAME_RANGE = 36"
    by (simp add: GAME_RANGE_def GAME_MIN_MIDI_def GAME_MAX_MIDI_def)
  have empty: "notes = [] \<longrightarrow> res = (48, 0)"
    by (simp add: res_def notes_def find_best_window_def default_transposer_def
        Transposer_init_def GAME_MIN_MIDI_def)
  have res: "res = (if hi - lo < GAME_RANGE then (lo, int (length notes))
                    else fold (window_step notes) [lo..hi - GAME_RANGE + 1] (lo, 0))"
    if "notes \<noteq> []"
  proof -
    from that obtain n ns where ns: "notes = n # ns" by (cases "notes") auto
    then have mn: "map note_no (filter is_note_on events) = n # ns" by (simp add: notes_def)
    show ?thesis
      unfolding res_def lo_def hi_def ns find_best_window_def mn Let_def list.case
        fold_min_Min fold_max_Max ..
  qed
  have fits: "notes \<noteq> [] \<and> hi - lo + 1 \<le> 36 \<longrightarrow> res = (lo, int (length notes))"
    using res by (simp add: gr)
  have wide: "notes \<noteq> [] \<and> hi - lo + 1 > 36 \<longrightarrow>
       snd res = window_count notes (fst res) \<and>
       (\<forall>s. window_count notes s \<le> snd res) \<and>
       lo \<le> fst res \<and> fst res + 35 \<le> hi \<and>
       (\<forall>s. lo \<le> s \<and> s < fst res \<longrightarrow> window_count notes s < snd res)"
  proof
    assume a: "notes \<noteq> [] \<and> hi - lo + 1 > 36"
    then have ne: "notes \<noteq> []" and w: "hi - lo \<ge> GAME_RANGE" by (simp_all add: gr)
    from res [OF ne] w
    have run: "fold (window_step notes) [lo..hi - GAME_RANGE + 1] (lo, 0) = (fst res, snd res)"
      by simp
    note best = sliding_window_best [OF ne lo_def hi_def w run, unfolded gr]
    from best have "fst res + 35 \<le> hi" by linarith
    with best
    show "snd res = window_count notes (fst res) \<and>
       (\<forall>s. window_count notes s \<le> snd res) \<and>
       lo \<le> fst res \<and> fst res + 35 \<le> hi \<and>
       (\<forall>s. lo \<le> s \<and> s < fst res \<longrightarrow> window_count notes s < snd res)"
      by blast
  qed
  from wide fits empty show ?thesis unfolding wc lo_def hi_def by blast
qed

theorem find_best_window_optimal_witness:
  "find_best_window default_transposer
     [\<lparr>note_no = 10, velocity = 100, time_delta = 0, is_note_on = True\<rparr>,
      \<lparr>note_no = 50, velocity = 100, time_delta = 1, is_note_on = True\<rparr>,
      \<lparr>note_no = 60, velocity = 100, time_delta = 1, is_note_on = True\<rparr>] = (25, 2) \<and>
   (\<forall>s. int (length (filter (\<lambda>n. s \<le> n \<and> n \<le> s + 35) [10, 50, 60 :: int])) \<le> 2) \<and>
   int (length (filter (\<lambda>n. 24 \<le> n \<and> n \<le> 24 + 35) [10, 50, 60 :: int])) < 2 \<and>
   find_best_window default_transposer
     [\<lparr>note_no = 62, velocity = 100, time_delta = 0, is_note_on = True\<rparr>,
      \<lparr>note_no = 60, velocity = 100, time_delta = 1, is_note_on = True\<rparr>] = (60, 2) \<and>
   find_best_window default_transposer
     [\<lparr>note_no = 62, velocity = 100, time_delta = 0, is_note_on = False\<rparr>] = (48, 0)"
proof -
  let ?wide = "[\<lparr>note_no = 10, velocity = 100, time_delta = 0, is_note_on = True\<rparr>,
      \<lparr>note_no = 50, velocity = 100, time_delta = 1, is_note_on = True\<rparr>,
      \<lparr>note_no = 60, velocity = 100, time_delta = 1, is_note_on = True\<rparr>]"
  let ?fits = "[\<lparr>note_no = 62, velocity = 100, time_delta = 0, is_note_on = True\<rparr>,
      \<lparr>note_no = 60, velocity = 100, time_delta = 1, is_note_on = True\<rparr>]"
  let ?none = "[\<lparr>note_no = 62, velocity = 100, time_delta = 0, is_note_on = False\<rparr>]"
  have e: "find_best_window default_transposer ?wide = (25, 2)"
    by code_simp
  have a': "(\<forall>s. int (length (filter (\<lambda>n. s \<le> n \<and> n \<le> s + 35) [10, 50, 60 :: int])) \<le> 2) \<and>
   (\<forall>s. 10 \<le> s \<and> s < 25 \<longrightarrow> int (length (filter (\<lambda>n. s \<le> n \<and> n \<le> s + 35) [10, 50, 60 :: int])) < 2)"
    using find_best_window_optimal [of ?wide] unfolding e by simp
  then have a: "(\<forall>s. int (length (filter (\<lambda>n. s \<le> n \<and> n \<le> s + 35) [10, 50, 60 :: int])) \<le> 2) \<and>
   int (length (filter (\<lambda>n. 24 \<le> n \<and> n \<le> 24 + 35) [10, 50, 60 :: int])) < 2"
    by simp
  have b: "find_best_window default_transposer ?fits = (60, 2)"
    using find_best_window_optimal [of ?fits] by simp
  have c: "find_best_window default_transposer ?none = (48, 0)"
    using find_best_window_optimal [of ?none] by simp
  from e a b c show ?thesis by blast
qed











section \<open>Properties of the key mapper\<close>

text \<open>
  C4. For every notation: a SHARP on a degree outside \<open>{1,4,5}\<close> and a FLAT on a degree
  outside \<open>{3,7}\<close> resolve to the natural key of the band and degree with no modifier;
  a SHARP on a degree in \<open>{1,4,5}\<close> resolves to the key of the sharp table with exactly
  the shift modifier; a FLAT on a degree in \<open>{3,7}\<close> resolves to the key of the flat table
  with exactly the ctrl modifier.
\<close>

theorem get_key_press_accidentals:
  "(accidental g = SHARP \<and> degree (name g) \<notin> {1, 4, 5} \<or>
    accidental g = FLAT \<and> degree (name g) \<notin> {3, 7} \<longrightarrow>
      (\<exists>row k. NATURAL_KEYS (pitch g) = Some row \<and> row (name g) = Some k \<and>
         get_key_press g = Inr \<lparr>key = k, modifiers = []\<rparr>)) \<and>
   (accidental g = SHARP \<and> degree (name g) \<in> {1, 4, 5} \<longrightarrow>
      (\<exists>row k. SHARP_KEYS (pitch g) = Some row \<and> row (name g) = Some k \<and>
         get_key_press g = Inr \<lparr>key = k, modifiers = [''shift'']\<rparr>)) \<and>
   (accidental g = FLAT \<and> degree (name g) \<in> {3, 7} \<longrightarrow>
      (\<exists>row k. FLAT_KEYS (pitch g) = Some row \<and> row (name g) = Some k \<and>
         get_key_press g = Inr \<lparr>key = k, modifiers = [''ctrl'']\<rparr>))"
proof -
  obtain p n a where g: "g = \<lparr>pitch = p, name = n, accidental = a\<rparr>"
    by (cases g) simp
  show ?thesis
    unfolding g
    by (cases a; cases n; cases p)
      (simp_all add: get_key_press_def get_sharp_key_def get_flat_key_def get_natural_key_def
        subscript2_def NATURAL_KEYS_def SHARP_KEYS_def FLAT_KEYS_def
        SHARPS_SUPPORTED_def FLATS_SUPPORTED_def)
qed

theorem get_key_press_accidentals_witness:
  "get_key_press \<lparr>pitch = LOW, name = RE, accidental = SHARP\<rparr> = Inr \<lparr>key = ''x'', modifiers = []\<rparr> \<and>
   get_key_press \<lparr>pitch = MID, name = LA, accidental = FLAT\<rparr> = Inr \<lparr>key = ''h'', modifiers = []\<rparr> \<and>
   get_key_press \<lparr>pitch = HIGH, name = FA, accidental = SHARP\<rparr> = Inr \<lparr>key = ''r'', modifiers = [''shift'']\<rparr> \<and>
   get_key_press \<lparr>pitch = MID, name = TI, accidental = FLAT\<rparr> = Inr \<lparr>key = ''j'', modifiers = [''ctrl'']\<rparr>"
  using get_key_press_accidentals [of "\<lparr>pitch = LOW, name = RE, accidental = SHARP\<rparr>"]
    get_key_press_accidentals [of "\<lparr>pitch = MID, name = LA, accidental = FLAT\<rparr>"]
    get_key_press_accidentals [of "\<lparr>pitch = HIGH, name = FA, accidental = SHARP\<rparr>"]
    get_key_press_accidentals [of "\<lparr>pitch = MID, name = TI, accidental = FLAT\<rparr>"]
  by (auto simp: NATURAL_KEYS_def SHARP_KEYS_def FLAT_KEYS_def)

section \<open>Properties of the compiler\<close>

lemma get_key_press_defined: "\<exists>k. get_key_press g = Inr k"
proof -
  obtain p n a where g: "g = \<lparr>pitch = p, name = n, accidental = a\<rparr>"
    by (cases g) simp
  show ?thesis
    unfolding g
    by (cases a; cases n; cases p)
      (simp_all add: get_key_press_def get_sharp_key_def get_flat_key_def get_natural_key_def
        subscript2_def NATURAL_KEYS_def SHARP_KEYS_def FLAT_KEYS_def
        SHARPS_SUPPORTED_def FLATS_SUPPORTED_def)
qed

lemma compile_note_appends:
  "\<exists>c. song_notes (fst (compile_note off base idx ce n song)) = song_notes song @ [c] \<and>
     timing c = (if idx = 0 then (n, time_delta ce) else (0, 0))"
proof -
  obtain g where g: "convert base (note_no ce + off) = Inr g"
    using convert_defined by blast
  obtain k where k: "get_key_press g = Inr k"
    using get_key_press_defined by blast
  show ?thesis
    by (simp add: compile_note_def g k Let_def timing_def split: sum.splits)
qed

lemma compile_chord_members:
  assumes "0 < idx"
  shows "map timing (song_notes (fst (compile_chord off base n idx ces st))) =
     map timing (song_notes (fst st)) @ replicate (length ces) (0, 0)"
  using assms
proof (induction ces arbitrary: idx st)
  case Nil
  then show ?case by simp
next
  case (Cons ce ces)
  obtain song caught where st: "st = (song, caught)" by (cases st)
  obtain song' exc where cn: "compile_note off base idx ce n song = (song', exc)"
    by (cases "compile_note off base idx ce n song")
  from compile_note_appends [of off base idx ce n song] Cons.prems cn
  obtain c where c: "song_notes song' = song_notes song @ [c]" "timing c = (0, 0)"
    by auto
  have "compile_chord off base n idx (ce # ces) st =
      compile_chord off base n (Suc idx) ces
        (song', caught @ (case exc of None \<Rightarrow> [] | Some err \<Rightarrow> [err]))"
    by (simp add: st cn)
  then show ?case
    using Cons.IH [of "Suc idx"] c by (simp add: st replicate_append_same)
qed

lemma compile_chord_head:
  "map timing (song_notes (fst (compile_chord off base n 0 (ce # ces) st))) =
     map timing (song_notes (fst st)) @ (n, time_delta ce) # replicate (length ces) (0, 0)"
proof -
  obtain song caught where st: "st = (song, caught)" by (cases st)
  obtain song' exc where cn: "compile_note off base 0 ce n song = (song', exc)"
    by (cases "compile_note off base 0 ce n song")
  from compile_note_appends [of off base 0 ce n song] cn
  obtain c where c: "song_notes song' = song_notes song @ [c]" "timing c = (n, time_delta ce)"
    by auto
  have "compile_chord off base n 0 (ce # ces) st =
      compile_chord off base n (Suc 0) ces
        (song', caught @ (case exc of None \<Rightarrow> [] | Some err \<Rightarrow> [err]))"
    by (simp add: st cn)
  then show ?thesis
    using compile_chord_members [of "Suc 0" off base n ces] c by (simp add: st)
qed

lemma follow_split:
  "follow thr rest =
     replicate (length (takeWhile (\<lambda>e. time_delta e \<le> thr) rest)) (0, 0) @
     (case dropWhile (\<lambda>e. time_delta e \<le> thr) rest of
        [] \<Rightarrow> []
      | d # ds \<Rightarrow> (1 + int (length (takeWhile (\<lambda>e. time_delta e \<le> thr) ds)), time_delta d)
                  # follow thr ds)"
  by (induction rest) simp_all

lemma compile_loop_timing:
  "map timing (song_notes (fst (fst (compile_loop thr off base evs tt st)))) =
     map timing (song_notes (fst st)) @
     (case evs of
        [] \<Rightarrow> []
      | e # rest \<Rightarrow> (1 + int (length (takeWhile (\<lambda>e. time_delta e \<le> thr) rest)), time_delta e)
                    # follow thr rest)"
proof (induction thr off base evs tt st rule: compile_loop.induct)
  case (1 thr off base tt st)
  show ?case by simp
next
  case (2 thr off base event rest tt st)
  show ?case
    using "2.IH" [OF refl]
    by (simp add: compile_chord_head follow_split [of thr rest] del: compile_chord.simps)
qed

lemma length_follow: "length (follow thr xs) = length xs"
  by (induction xs) simp_all

lemma follow_nth:
  "k < length xs \<Longrightarrow> follow thr xs ! k =
     (if time_delta (xs ! k) \<le> thr then (0, 0)
      else (1 + int (length (takeWhile (\<lambda>e. time_delta e \<le> thr) (drop (Suc k) xs))),
            time_delta (xs ! k)))"
proof (induction xs arbitrary: k)
  case Nil
  then show ?case by simp
next
  case (Cons x xs)
  then show ?case by (cases k) simp_all
qed

lemma sum_follow:
  "sum_list (map fst (follow thr xs)) + int (length (takeWhile (\<lambda>e. time_delta e \<le> thr) xs)) =
     int (length xs)"
  by (induction xs) simp_all

lemma compile_note_density:
  "density_map (fst (compile_note off base idx ce n song)) = density_map song"
  by (simp add: compile_note_def Let_def split: sum.splits)

lemma compile_chord_density:
  "density_map (fst (compile_chord off base n idx ces st)) = density_map (fst st)"
proof (induction ces arbitrary: idx st)
  case Nil
  show ?case by simp
next
  case (Cons ce ces)
  obtain song caught where st: "st = (song, caught)" by (cases st)
  obtain song' exc where cn: "compile_note off base idx ce n song = (song', exc)"
    by (cases "compile_note off base idx ce n song")
  from compile_note_density [of off base idx ce n song] cn
  have "density_map song' = density_map song" by simp
  then show ?case using Cons.IH [of "Suc idx"] by (simp add: st cn)
qed

lemma compile_loop_density:
  "density_map (fst (fst (compile_loop thr off base evs tt st))) = density_map (fst st)"
proof (induction thr off base evs tt st rule: compile_loop.induct)
  case (1 thr off base tt st)
  show ?case by simp
next
  case (2 thr off base event rest tt st)
  show ?case
    using "2.IH" [OF refl]
    by (simp add: compile_chord_density del: compile_chord.simps)
qed

lemma length_cumulative_times: "length (cumulative_times acc ns) = length ns"
  by (induction ns arbitrary: acc) simp_all

lemma compile_song_notes:
  "evs \<noteq> [] \<Longrightarrow> song_notes (compile evs off base thr) =
     song_notes (fst (fst (compile_loop thr off base evs 0 (CompiledSong_init, []))))"
  by (simp add: compile_def compile_run_def calculate_density_def Let_def split: prod.splits)

lemma compile_timing:
  "map timing (song_notes (compile evs off base thr)) =
     (case evs of
        [] \<Rightarrow> []
      | e # rest \<Rightarrow> (1 + int (length (takeWhile (\<lambda>e. time_delta e \<le> thr) rest)), time_delta e)
                    # follow thr rest)"
proof (cases evs)
  case Nil
  then show ?thesis by (simp add: compile_def compile_run_def CompiledSong_init_def)
next
  case (Cons e rest)
  then have "evs \<noteq> []" by simp
  from compile_song_notes [OF this, of off base thr]
    compile_loop_timing [of thr off base evs 0 "(CompiledSong_init, [])"]
  show ?thesis by (simp add: CompiledSong_init_def)
qed

lemma compile_length: "length (song_notes (compile evs off base thr)) = length evs"
proof -
  have "length (map timing (song_notes (compile evs off base thr))) = length evs"
    unfolding compile_timing by (simp add: length_follow split: list.splits)
  then show ?thesis by simp
qed

lemma compile_timing_nth:
  assumes "k < length evs"
  shows "timing (song_notes (compile evs off base thr) ! k) =
     (if 0 < k \<and> time_delta (evs ! k) \<le> thr then (0, 0)
      else (1 + int (length (takeWhile (\<lambda>e. time_delta e \<le> thr) (drop (Suc k) evs))),
            time_delta (evs ! k)))"
proof -
  from assms have "k < length (song_notes (compile evs off base thr))"
    by (simp add: compile_length)
  then have "timing (song_notes (compile evs off base thr) ! k) =
      map timing (song_notes (compile evs off base thr)) ! k" by simp
  also have "\<dots> = (if 0 < k \<and> time_delta (evs ! k) \<le> thr then (0, 0)
      else (1 + int (length (takeWhile (\<lambda>e. time_delta e \<le> thr) (drop (Suc k) evs))),
            time_delta (evs ! k)))"
  proof (cases evs)
    case Nil
    with assms show ?thesis by simp
  next
    case (Cons e rest)
    show ?thesis
    proof (cases k)
      case 0
      then show ?thesis unfolding compile_timing Cons by simp
    next
      case (Suc j)
      with assms Cons have "j < length rest" by simp
      from follow_nth [OF this, of thr] show ?thesis
        unfolding compile_timing Cons Suc by simp
    qed
  qed
  finally show ?thesis .
qed

lemma compile_sum_chord_size:
  "sum_list (map chord_size (song_notes (compile evs off base thr))) = int (length evs)"
proof -
  have "map chord_size (song_notes (compile evs off base thr)) =
      map fst (map timing (song_notes (compile evs off base thr)))"
    by (simp add: timing_def comp_def)
  also have "sum_list \<dots> = int (length evs)"
    unfolding compile_timing using sum_follow [of thr]
    by (simp split: list.splits add: add.commute add.left_commute)
  finally show ?thesis .
qed

lemma compile_density_length:
  "length (density_map (compile evs off base thr)) =
     length (song_notes (compile evs off base thr))"
proof (cases "evs = []")
  case True
  then show ?thesis by (simp add: compile_def compile_run_def CompiledSong_init_def)
next
  case False
  obtain song caught tt where run:
    "compile_loop thr off base evs 0 (CompiledSong_init, []) = ((song, caught), tt)"
    by (cases "compile_loop thr off base evs 0 (CompiledSong_init, [])") auto
  from compile_loop_density [of thr off base evs 0 "(CompiledSong_init, [])"] run
  have "density_map song = []" by (simp add: CompiledSong_init_def)
  with False run show ?thesis
    by (simp add: compile_def compile_run_def calculate_density_def Let_def
        length_cumulative_times)
qed

lemma compile_total_notes:
  "total_notes (compile evs off base thr) =
     int (length (song_notes (compile evs off base thr)))"
  by (simp add: compile_def compile_run_def calculate_density_def Let_def CompiledSong_init_def
      split: prod.splits)

text \<open>
  C3. For every event list and chord threshold, an event after the first whose own time
  delta is at most the threshold joins the cluster of its predecessor: its compiled note
  has chord size 0 and time delta 0. Every other event starts a cluster: its compiled
  note keeps the event's time delta, and its chord size is one plus the length of the
  longest run of directly following evs whose deltas are at most the threshold. The
  chord sizes of the cluster-starting notes add up to the number of compiled notes, and
  the density map has one entry per compiled note.
\<close>

theorem compile_chord_clusters:
  fixes evs :: "NoteEvent list" and thr :: seconds and off :: int
  defines "song \<equiv> compile evs off 4 thr"
  defines "joins \<equiv> \<lambda>k. 0 < k \<and> time_delta (evs ! k) \<le> thr"
  shows "length (song_notes song) = length evs \<and>
     (\<forall>k<length evs. joins k \<longrightarrow>
        chord_size (song_notes song ! k) = 0 \<and> note_time_delta (song_notes song ! k) = 0) \<and>
     (\<forall>k<length evs. \<not> joins k \<longrightarrow>
        chord_size (song_notes song ! k) =
          1 + int (length (takeWhile (\<lambda>e. time_delta e \<le> thr) (drop (Suc k) evs))) \<and>
        note_time_delta (song_notes song ! k) = time_delta (evs ! k)) \<and>
     (\<Sum>k | k < length evs \<and> \<not> joins k. chord_size (song_notes song ! k)) =
        int (length (song_notes song)) \<and>
     length (density_map song) = length (song_notes song) \<and>
     total_notes song = int (length (song_notes song))"
proof -
  have len: "length (song_notes song) = length evs"
    unfolding song_def by (rule compile_length)
  have nth: "chord_size (song_notes song ! k) = fst (if joins k then (0, 0)
        else (1 + int (length (takeWhile (\<lambda>e. time_delta e \<le> thr) (drop (Suc k) evs))),
              time_delta (evs ! k))) \<and>
      note_time_delta (song_notes song ! k) = snd (if joins k then (0, 0)
        else (1 + int (length (takeWhile (\<lambda>e. time_delta e \<le> thr) (drop (Suc k) evs))),
              time_delta (evs ! k)))"
    if "k < length evs" for k
    using compile_timing_nth [OF that, of off 4 thr, symmetric]
    unfolding song_def joins_def timing_def by simp
  have members: "\<forall>k<length evs. joins k \<longrightarrow>
        chord_size (song_notes song ! k) = 0 \<and> note_time_delta (song_notes song ! k) = 0"
    using nth by simp
  have starters: "\<forall>k<length evs. \<not> joins k \<longrightarrow>
        chord_size (song_notes song ! k) =
          1 + int (length (takeWhile (\<lambda>e. time_delta e \<le> thr) (drop (Suc k) evs))) \<and>
        note_time_delta (song_notes song ! k) = time_delta (evs ! k)"
    using nth by simp
  have "(\<Sum>k | k < length evs \<and> \<not> joins k. chord_size (song_notes song ! k)) =
      (\<Sum>k\<in>{0..<length evs}. chord_size (song_notes song ! k))"
  proof (rule sum.mono_neutral_left)
    show "finite {0..<length evs}" by simp
    show "{k. k < length evs \<and> \<not> joins k} \<subseteq> {0..<length evs}" by auto
    show "\<forall>i\<in>{0..<length evs} - {k. k < length evs \<and> \<not> joins k}.
        chord_size (song_notes song ! i) = 0"
      using members by auto
  qed
  also have "\<dots> = sum_list (map chord_size (song_notes song))"
    by (simp add: sum_list_sum_nth len)
  also have "\<dots> = int (length (song_notes song))"
    unfolding len unfolding song_def by (rule compile_sum_chord_size)
  finally have total: "(\<Sum>k | k < length evs \<and> \<not> joins k. chord_size (song_notes song ! k)) =
      int (length (song_notes song))" .
  have dens: "length (density_map song) = length (song_notes song)"
    unfolding song_def by (rule compile_density_length)
  have tot: "total_notes song = int (length (song_notes song))"
    unfolding song_def by (rule compile_total_notes)
  from len members starters total dens tot show ?thesis by blast
qed

theorem compile_chord_clusters_witness:
  "map chord_size (song_notes (compile
     [\<lparr>note_no = 60, velocity = 100, time_delta = 0, is_note_on = True\<rparr>,
      \<lparr>note_no = 64, velocity = 100, time_delta = 1 / 100, is_note_on = True\<rparr>,
      \<lparr>note_no = 67, velocity = 100, time_delta = 1 / 2, is_note_on = True\<rparr>] 0 4 (1 / 20))) =
     [2, 0, 1] \<and>
   map note_time_delta (song_notes (compile
     [\<lparr>note_no = 60, velocity = 100, time_delta = 0, is_note_on = True\<rparr>,
      \<lparr>note_no = 64, velocity = 100, time_delta = 1 / 100, is_note_on = True\<rparr>,
      \<lparr>note_no = 67, velocity = 100, time_delta = 1 / 2, is_note_on = True\<rparr>] 0 4 (1 / 20))) =
     [0, 0, 1 / 2] \<and>
   length (density_map (compile
     [\<lparr>note_no = 60, velocity = 100, time_delta = 0, is_note_on = True\<rparr>,
      \<lparr>note_no = 64, velocity = 100, time_delta = 1 / 100, is_note_on = True\<rparr>,
      \<lparr>note_no = 67, velocity = 100, time_delta = 1 / 2, is_note_on = True\<rparr>] 0 4 (1 / 20))) = 3"
proof -
  let ?evs = "[\<lparr>note_no = 60, velocity = 100, time_delta = 0, is_note_on = True\<rparr>,
      \<lparr>note_no = 64, velocity = 100, time_delta = 1 / 100, is_note_on = True\<rparr>,
      \<lparr>note_no = 67, velocity = 100, time_delta = 1 / 2, is_note_on = True\<rparr>]"
  let ?ns = "song_notes (compile ?evs 0 4 (1 / 20))"
  note c = compile_chord_clusters [of ?evs 0 "1 / 20"]
  from c have len: "length ?ns = length ?evs" by blast
  from c have dens: "length (density_map (compile ?evs 0 4 (1 / 20))) = length ?ns" by blast
  from c have joins: "\<forall>k<length ?evs. 0 < k \<and> time_delta (?evs ! k) \<le> 1 / 20 \<longrightarrow>
      chord_size (?ns ! k) = 0 \<and> note_time_delta (?ns ! k) = 0"
    by blast
  from c have starts: "\<forall>k<length ?evs. \<not> (0 < k \<and> time_delta (?evs ! k) \<le> 1 / 20) \<longrightarrow>
      chord_size (?ns ! k) =
        1 + int (length (takeWhile (\<lambda>e. time_delta e \<le> 1 / 20) (drop (Suc k) ?evs))) \<and>
      note_time_delta (?ns ! k) = time_delta (?evs ! k)"
    by blast
  from starts [rule_format, of 0] have n0: "chord_size (?ns ! 0) = 2" "note_time_delta (?ns ! 0) = 0"
    by simp_all
  from joins [rule_format, of 1] have n1: "chord_size (?ns ! 1) = 0" "note_time_delta (?ns ! 1) = 0"
    by simp_all
  from starts [rule_format, of 2] have n2: "chord_size (?ns ! 2) = 1" "note_time_delta (?ns ! 2) = 1 / 2"
    by simp_all
  from len obtain a b c where ns: "?ns = [a, b, c]"
    by (auto simp: length_Suc_conv numeral_3_eq_3)
  from n0 n1 n2 have "map chord_size ?ns = [2, 0, 1]" "map note_time_delta ?ns = [0, 0, 1 / 2]"
    unfolding ns by simp_all
  with dens len show ?thesis by simp
qed

lemma compile_note_no_exception:
  assumes "post_init_ok ce" and "0 \<le> n" and "n \<le> 255"
  shows "snd (compile_note off base idx ce n song) = None"
proof -
  obtain g where g: "convert base (note_no ce + off) = Inr g"
    using convert_defined by blast
  obtain k where k: "get_key_press g = Inr k"
    using get_key_press_defined by blast
  from assms show ?thesis
    by (simp add: compile_note_def g k Let_def array_B_append_def post_init_ok_def)
qed

lemma compile_chord_no_exception:
  assumes "\<forall>ce\<in>set ces. post_init_ok ce" and "0 \<le> n" and "n \<le> 255"
  shows "snd (compile_chord off base n idx ces st) = snd st"
  using assms(1)
proof (induction ces arbitrary: idx st)
  case Nil
  show ?case by simp
next
  case (Cons ce ces)
  obtain song caught where st: "st = (song, caught)" by (cases st)
  obtain song' exc where cn: "compile_note off base idx ce n song = (song', exc)"
    by (cases "compile_note off base idx ce n song")
  from Cons.prems have "post_init_ok ce" by simp
  from compile_note_no_exception [OF this assms(2,3), of off base idx song] cn
  have "exc = None" by simp
  then show ?case using Cons.IH [of "Suc idx"] Cons.prems by (simp add: st cn)
qed

lemma compile_loop_no_exception:
  assumes "\<forall>e\<in>set evs. post_init_ok e" and "length evs \<le> 255"
  shows "snd (fst (compile_loop thr off base evs tt st)) = snd st"
  using assms
proof (induction thr off base evs tt st rule: compile_loop.induct)
  case (1 thr off base tt st)
  show ?case by simp
next
  case (2 thr off base event rest tt st)
  let ?run = "takeWhile (\<lambda>e. time_delta e \<le> thr) rest"
  let ?left = "dropWhile (\<lambda>e. time_delta e \<le> thr) rest"
  have "set ?left \<subseteq> set rest" by (rule set_dropWhileD [THEN subsetI])
  with "2.prems" have ok: "\<forall>e\<in>set ?left. post_init_ok e" by auto
  have "length ?left \<le> length rest" by (rule length_dropWhile_le)
  with "2.prems" have short: "length ?left \<le> 255" by simp
  have "set ?run \<subseteq> set rest" by (auto dest: set_takeWhileD)
  with "2.prems" have chord_ok: "\<forall>ce\<in>set (event # ?run). post_init_ok ce" by auto
  have "length ?run \<le> length rest" by (rule length_takeWhile_le)
  with "2.prems" have n: "0 \<le> int (length (event # ?run))" "int (length (event # ?run)) \<le> 255"
    by simp_all
  from "2.IH" [OF refl ok short]
    compile_chord_no_exception [OF chord_ok n, of off base 0 st]
  show ?case by (simp del: compile_chord.simps)
qed

lemma compile_caught_none:
  assumes "\<forall>e\<in>set evs. post_init_ok e" and "length evs \<le> 255"
  shows "compile_caught evs off base thr = []"
proof (cases "evs = []")
  case True
  then show ?thesis by (simp add: compile_caught_def compile_run_def)
next
  case False
  obtain song caught tt where run:
    "compile_loop thr off base evs 0 (CompiledSong_init, []) = ((song, caught), tt)"
    by (cases "compile_loop thr off base evs 0 (CompiledSong_init, [])") auto
  from compile_loop_no_exception [OF assms, of thr off base 0 "(CompiledSong_init, [])"] run
  have "caught = []" by simp
  with False run show ?thesis
    by (simp add: compile_caught_def compile_run_def Let_def)
qed

lemma compile_note_overflow:
  assumes "post_init_ok ce" and "255 < n"
  shows "snd (compile_note off base 0 ce n song) = Some OverflowError \<and>
     chord_sizes (fst (compile_note off base 0 ce n song)) = chord_sizes song"
proof -
  obtain g where g: "convert base (note_no ce + off) = Inr g"
    using convert_defined by blast
  obtain k where k: "get_key_press g = Inr k"
    using get_key_press_defined by blast
  from assms show ?thesis
    by (simp add: compile_note_def g k Let_def array_B_append_def post_init_ok_def)
qed

lemma compile_note_member:
  assumes "post_init_ok ce" and "0 < idx"
  shows "snd (compile_note off base idx ce n song) = None \<and>
     chord_sizes (fst (compile_note off base idx ce n song)) = chord_sizes song @ [0]"
proof -
  obtain g where g: "convert base (note_no ce + off) = Inr g"
    using convert_defined by blast
  obtain k where k: "get_key_press g = Inr k"
    using get_key_press_defined by blast
  from assms show ?thesis
    by (simp add: compile_note_def g k Let_def array_B_append_def post_init_ok_def)
qed

lemma compile_chord_tail:
  assumes "\<forall>ce\<in>set ces. post_init_ok ce" and "0 < idx"
  shows "snd (compile_chord off base n idx ces st) = snd st \<and>
     chord_sizes (fst (compile_chord off base n idx ces st)) =
       chord_sizes (fst st) @ replicate (length ces) 0"
  using assms
proof (induction ces arbitrary: idx st)
  case Nil
  show ?case by simp
next
  case (Cons ce ces)
  obtain song caught where st: "st = (song, caught)" by (cases st)
  obtain song' exc where cn: "compile_note off base idx ce n song = (song', exc)"
    by (cases "compile_note off base idx ce n song")
  from Cons.prems have "post_init_ok ce" by simp
  from compile_note_member [OF this Cons.prems(2), of off base n song] cn
  have "exc = None" "chord_sizes song' = chord_sizes song @ [0]" by simp_all
  then show ?case
    using Cons.IH [of "Suc idx" "(song', caught)"] Cons.prems
    by (simp add: st cn replicate_append_same)
qed

lemma compile_one_big_chord:
  assumes ok: "post_init_ok e" and close: "time_delta e \<le> thr" and big: "255 \<le> m"
  shows "compile_caught (replicate (Suc m) e) off base thr = [OverflowError] \<and>
     length (chord_sizes (compile (replicate (Suc m) e) off base thr)) = m"
proof -
  let ?n = "int (length (e # replicate m e))"
  let ?st0 = "(CompiledSong_init, [] :: py_error list)"
  obtain song1 exc where cn: "compile_note off base 0 e ?n CompiledSong_init = (song1, exc)"
    by (cases "compile_note off base 0 e ?n CompiledSong_init")
  from big have "255 < ?n" by simp
  from compile_note_overflow [OF ok this, of off base CompiledSong_init] cn
  have exc: "exc = Some OverflowError" and cs1: "chord_sizes song1 = []"
    by (simp_all add: CompiledSong_init_def)
  have tail: "snd (compile_chord off base ?n (Suc 0) (replicate m e) (song1, [OverflowError])) =
      [OverflowError] \<and>
    chord_sizes (fst (compile_chord off base ?n (Suc 0) (replicate m e) (song1, [OverflowError]))) =
      replicate m 0"
    using compile_chord_tail [of "replicate m e" "Suc 0" off base ?n "(song1, [OverflowError])"]
      ok cs1 by simp
  have chord: "compile_chord off base ?n 0 (e # replicate m e) ?st0 =
      compile_chord off base ?n (Suc 0) (replicate m e) (song1, [OverflowError])"
    using cn exc by simp
  have loop: "compile_loop thr off base (replicate (Suc m) e) 0 ?st0 =
      (compile_chord off base ?n 0 (e # replicate m e) ?st0, time_delta e)"
    using close by (simp add: takeWhile_replicate dropWhile_replicate del: compile_chord.simps)
  obtain song caught where res:
    "compile_chord off base ?n (Suc 0) (replicate m e) (song1, [OverflowError]) = (song, caught)"
    by (cases "compile_chord off base ?n (Suc 0) (replicate m e) (song1, [OverflowError])")
  from tail res have c: "caught = [OverflowError]" and l: "chord_sizes song = replicate m 0"
    by simp_all
  have run: "compile_loop thr off base (replicate (Suc m) e) 0 ?st0 = ((song, caught), time_delta e)"
    unfolding loop chord res ..
  have ne: "replicate (Suc m) e \<noteq> []" by simp
  show ?thesis
    unfolding compile_caught_def compile_def compile_run_def
    by (simp only: ne if_False run Let_def prod.case fst_conv snd_conv c)
      (simp add: calculate_density_def Let_def l)
qed

text \<open>
  C10. The claim is that no exception is ever caught in \<open>compile\<close> for evs within the
  constructor's bounds. The code at 256 evs that all belong to one chord: the first
  event's chord size 256 does not fit the unsigned-byte array of chord sizes, the
  \<^verbatim>\<open>OverflowError\<close> is caught by the handler, and the array is left one entry short
  of the note list. Each event still gets its compiled note.
\<close>

theorem compile_catches_overflow_at_256:
  "post_init_ok \<lparr>note_no = 60, velocity = 100, time_delta = 0, is_note_on = True\<rparr> \<and>
   compile_caught
     (replicate 256 \<lparr>note_no = 60, velocity = 100, time_delta = 0, is_note_on = True\<rparr>)
     0 4 (1 / 20) = [OverflowError] \<and>
   length (song_notes (compile
     (replicate 256 \<lparr>note_no = 60, velocity = 100, time_delta = 0, is_note_on = True\<rparr>)
     0 4 (1 / 20))) = 256 \<and>
   length (chord_sizes (compile
     (replicate 256 \<lparr>note_no = 60, velocity = 100, time_delta = 0, is_note_on = True\<rparr>)
     0 4 (1 / 20))) = 255"
proof -
  let ?e = "\<lparr>note_no = 60, velocity = 100, time_delta = 0, is_note_on = True\<rparr>"
  have ok: "post_init_ok ?e" by (simp add: post_init_ok_def)
  have close: "time_delta ?e \<le> 1 / 20" by simp
  have n: "(256 :: nat) = Suc 255" by simp
  from compile_one_big_chord [OF ok close, of 255 0 4]
  have "compile_caught (replicate 256 ?e) 0 4 (1 / 20) = [OverflowError]"
    and "length (chord_sizes (compile (replicate 256 ?e) 0 4 (1 / 20))) = 255"
    unfolding n by simp_all
  moreover have "length (song_notes (compile (replicate 256 ?e) 0 4 (1 / 20))) = 256"
    by (simp add: compile_length)
  ultimately show ?thesis using ok by simp
qed

section \<open>Properties of the playback controller\<close>

lemma held_modifiers_release_all:
  "initialized ks \<Longrightarrow> held_modifiers (release_all ks) = []"
  by (simp add: release_all_def Let_def)

text \<open>
  C7. From every prior state of the controller, \<open>stop\<close> sets the stop flag, clears the
  pause flag, calls \<open>release_all\<close> on the keyboard service, then joins the playback thread
  if one is alive, resets the current and the start position to 0 and sets the state to
  \<open>STOPPED\<close>: the call of \<open>release_all\<close> comes first among its effects, whether a thread
  is alive or not, and on an initialised service it leaves no modifier held.
\<close>

theorem stop_releases_all_and_resets:
  "state (stop app) = STOPPED \<and>
   current_position (stop app) = 0 \<and> start_position (stop app) = 0 \<and>
   stop_flag (stop app) \<and> \<not> pause_flag (stop app) \<and>
   keyboard_service (stop app) = release_all (keyboard_service app) \<and>
   effects (stop app) =
     effects app @ [SinkReleaseAll] @ (if thread_alive app then [ThreadJoin] else []) @
     [StateChange STOPPED] \<and>
   (initialized (keyboard_service app) \<longrightarrow> held_modifiers (keyboard_service (stop app)) = [])"
  by (simp add: stop_def set_state_def Let_def held_modifiers_release_all)

theorem stop_releases_all_and_resets_witness:
  "initialized \<lparr>initialized = True, held_modifiers = [''shift''], released = []\<rparr> \<and>
   held_modifiers (keyboard_service (stop (demo_playing
     \<lparr>keyboard_service := \<lparr>initialized = True, held_modifiers = [''shift''], released = []\<rparr>\<rparr>))) = [] \<and>
   state (stop (demo_playing
     \<lparr>keyboard_service := \<lparr>initialized = True, held_modifiers = [''shift''], released = []\<rparr>\<rparr>)) = STOPPED"
proof -
  let ?ks = "\<lparr>initialized = True, held_modifiers = [''shift''], released = []\<rparr>"
  let ?a = "demo_playing\<lparr>keyboard_service := ?ks\<rparr>"
  note t = stop_releases_all_and_resets [of ?a]
  have ks: "keyboard_service ?a = ?ks" by simp
  have i: "initialized ?ks" by simp
  from t have s: "state (stop ?a) = STOPPED" by blast
  from t have "initialized (keyboard_service ?a) \<longrightarrow>
      held_modifiers (keyboard_service (stop ?a)) = []" by blast
  with i have h: "held_modifiers (keyboard_service (stop ?a)) = []" unfolding ks by blast
  from i h s show ?thesis by blast
qed


















end
